theory Spec2Isabelle
  imports Main "HOL-Library.Option_ord"
begin

section \<open>Data model (types.ts, schema, error-codes.ts)\<close>

text \<open>
  The four values of \<^verbatim>\<open>WaitlistStatus\<close>. A \<^verbatim>\<open>Date\<close> is its time value in
  milliseconds, an \<^typ>\<open>int\<close>; a field typed \<^verbatim>\<open>T | null\<close> is an option.
\<close>

datatype WaitlistStatus = Pending | Approved | Rejected | Registered

record WaitlistEntry =
  entry_id :: string
  email :: string
  status :: WaitlistStatus
  inviteCode :: "string option"
  inviteExpiresAt :: "int option"
  position :: "int option"
  referredBy :: "string option"
  metadata :: "string option"
  approvedAt :: "int option"
  rejectedAt :: "int option"
  registeredAt :: "int option"
  createdAt :: int
  updatedAt :: int

datatype autoApprove_t = AutoFlag bool | AutoFn "string \<Rightarrow> bool"

text \<open>\<^verbatim>\<open>WaitlistOptions\<close>: every key is optional, \<open>None\<close> is an absent key.\<close>

record WaitlistOptions =
  enabled :: "bool option"
  requireInviteCode :: "bool option"
  inviteCodeExpiration :: "int option"
  maxWaitlistSize :: "int option"
  skipAnonymous :: "bool option"
  autoApprove :: "autoApprove_t option"
  interceptPaths :: "string list option"
  adminRoles :: "string list option"

datatype http_status = BAD_REQUEST | NOT_FOUND | FORBIDDEN

datatype error_code =
    EMAIL_ALREADY_IN_WAITLIST
  | WAITLIST_ENTRY_NOT_FOUND
  | NOT_APPROVED
  | INVALID_INVITE_CODE
  | INVITE_CODE_REQUIRED
  | ALREADY_REGISTERED
  | WAITLIST_FULL
  | UNAUTHORIZED_ADMIN_ACTION

text \<open>\<^verbatim>\<open>new APIError(status, {message: code})\<close>.\<close>

type_synonym APIError = "http_status \<times> error_code"

text \<open>
  What one run of a handler draws from outside the store: the value of
  \<^verbatim>\<open>crypto.randomUUID()\<close>, the reading of \<^verbatim>\<open>Date.now()\<close>, the readings of
  the first and of the second \<^verbatim>\<open>new Date()\<close>, and the identifier the store
  gives to a created row. A loop draws once per iteration.
\<close>

record env =
  uuid :: string
  date_now :: int
  new_date :: int
  new_date2 :: int
  new_id :: string

section \<open>The record store adapter\<close>

text \<open>
  The adapter belongs to the host framework. The collection is the list of its rows in
  creation order; a \<^verbatim>\<open>where\<close> clause, a conjunction of field equalities, is a
  predicate on rows. \<open>findOne\<close> gives the first matching row, \<open>adapter_update\<close>
  patches the first matching row and returns it, \<open>create\<close> appends, \<open>findMany\<close>
  filters, sorts (stable, ascending, an absent key first) and cuts at the limit.
\<close>

type_synonym store = "WaitlistEntry list"

definition findOne :: "(WaitlistEntry \<Rightarrow> bool) \<Rightarrow> store \<Rightarrow> WaitlistEntry option" where
  "findOne w s = List.find w s"

definition count_rows :: "store \<Rightarrow> int" where
  "count_rows s = int (length s)"

definition create :: "WaitlistEntry \<Rightarrow> store \<Rightarrow> store \<times> WaitlistEntry" where
  "create d s = (s @ [d], d)"

fun adapter_update ::
  "(WaitlistEntry \<Rightarrow> bool) \<Rightarrow> (WaitlistEntry \<Rightarrow> WaitlistEntry) \<Rightarrow> store
     \<Rightarrow> store \<times> WaitlistEntry option" where
  "adapter_update w u [] = ([], None)"
| "adapter_update w u (e # s) =
     (if w e then (u e # s, Some (u e))
      else (case adapter_update w u s of (s', r) \<Rightarrow> (e # s', r)))"

definition findMany_asc ::
  "(WaitlistEntry \<Rightarrow> bool) \<Rightarrow> (WaitlistEntry \<Rightarrow> 'k::linorder) \<Rightarrow> nat \<Rightarrow> store \<Rightarrow> WaitlistEntry list" where
  "findMany_asc w k limit s = take limit (sort_key k (filter w s))"

section \<open>Helpers of the language\<close>

text \<open>\<^verbatim>\<open>String.prototype.toLowerCase\<close> on the ASCII letters an email is made of.\<close>

definition lower_char :: "char \<Rightarrow> char" where
  "lower_char c =
     (let n = (of_char c :: nat)
      in if 65 \<le> n \<and> n \<le> 90 then char_of (n + 32) else c)"

definition toLowerCase :: "string \<Rightarrow> string" where
  "toLowerCase x = map lower_char x"

text \<open>Truthiness of an optional string and of an optional boolean.\<close>

fun truthy_str :: "string option \<Rightarrow> bool" where
  "truthy_str None = False"
| "truthy_str (Some x) = (x \<noteq> [])"

fun truthy_bool :: "bool option \<Rightarrow> bool" where
  "truthy_bool None = False"
| "truthy_bool (Some b) = b"

text \<open>\<^verbatim>\<open>options.inviteCodeExpiration ?? 172800\<close>.\<close>

definition expSeconds :: "WaitlistOptions \<Rightarrow> int" where
  "expSeconds options = (case inviteCodeExpiration options of None \<Rightarrow> 172800 | Some n \<Rightarrow> n)"

text \<open>The store a handler leaves behind: a handler that throws has written nothing.\<close>

fun store_after :: "store \<Rightarrow> APIError + (store \<times> 'a) \<Rightarrow> store" where
  "store_after s (Inl err) = s"
| "store_after s (Inr (s', r)) = s'"

section \<open>Public routes (routes/public.ts)\<close>

text \<open>
  \<open>joinWaitlist\<close>: the handler of \<^verbatim>\<open>/waitlist/join\<close>. The notification callbacks
  do not touch the store and are left out; the result is the created row, of which the
  response shows id, email, status, position and createdAt.
\<close>

definition waitlist_full :: "WaitlistOptions \<Rightarrow> store \<Rightarrow> bool" where
  "waitlist_full options s =
     (case maxWaitlistSize options of
        None \<Rightarrow> False
      | Some m \<Rightarrow> m \<noteq> 0 \<and> count_rows s \<ge> m)"

definition shouldApprove :: "WaitlistOptions \<Rightarrow> string \<Rightarrow> bool" where
  "shouldApprove options normalizedEmail =
     (case autoApprove options of
        None \<Rightarrow> False
      | Some (AutoFlag b) \<Rightarrow> b
      | Some (AutoFn f) \<Rightarrow> f normalizedEmail)"

definition joinWaitlist ::
  "WaitlistOptions \<Rightarrow> env \<Rightarrow> string \<Rightarrow> string option \<Rightarrow> string option \<Rightarrow> store
     \<Rightarrow> APIError + (store \<times> WaitlistEntry)" where
  "joinWaitlist options ev email_in referredBy_in metadata_in s =
     (let normalizedEmail = toLowerCase email_in in
      case findOne (\<lambda>e. email e = normalizedEmail) s of
        Some existing \<Rightarrow> Inl (BAD_REQUEST, EMAIL_ALREADY_IN_WAITLIST)
      | None \<Rightarrow>
          if waitlist_full options s
          then Inl (BAD_REQUEST, WAITLIST_FULL)
          else
            let totalCount = count_rows s;
                ok = shouldApprove options normalizedEmail
            in Inr (create
                 \<lparr> entry_id = new_id ev,
                   email = normalizedEmail,
                   status = (if ok then Approved else Pending),
                   inviteCode = (if ok then Some (uuid ev) else None),
                   inviteExpiresAt =
                     (if ok then Some (date_now ev + expSeconds options * 1000) else None),
                   position = Some (totalCount + 1),
                   referredBy = referredBy_in,
                   metadata = metadata_in,
                   approvedAt = (if ok then Some (new_date ev) else None),
                   rejectedAt = None,
                   registeredAt = None,
                   createdAt = new_date2 ev,
                   updatedAt = new_date2 ev \<rparr> s))"

text \<open>\<open>getWaitlistStatus\<close>: the handler of \<^verbatim>\<open>/waitlist/status\<close>.\<close>

definition getWaitlistStatus ::
  "string \<Rightarrow> store \<Rightarrow> APIError + (WaitlistStatus \<times> int option)" where
  "getWaitlistStatus email_in s =
     (case findOne (\<lambda>e. email e = toLowerCase email_in) s of
        None \<Rightarrow> Inl (NOT_FOUND, WAITLIST_ENTRY_NOT_FOUND)
      | Some entry \<Rightarrow> Inr (status entry, position entry))"

text \<open>
  \<open>verifyInviteCode\<close>: the handler of \<^verbatim>\<open>/waitlist/verify-invite\<close>; \<open>now\<close> is the
  reading of \<^verbatim>\<open>new Date()\<close> in the comparison. The response is the pair
  \<^verbatim>\<open>{valid, email}\<close>.
\<close>

definition verifyInviteCode :: "int \<Rightarrow> string \<Rightarrow> store \<Rightarrow> bool \<times> string option" where
  "verifyInviteCode now code s =
     (case findOne (\<lambda>e. inviteCode e = Some code \<and> status e = Approved) s of
        None \<Rightarrow> (False, None)
      | Some entry \<Rightarrow>
          (case inviteExpiresAt entry of
             Some t \<Rightarrow> if t < now then (False, None) else (True, Some (email entry))
           | None \<Rightarrow> (True, Some (email entry))))"

section \<open>Admin routes (routes/admin.ts)\<close>

text \<open>
  The admin handlers run behind \<^verbatim>\<open>adminMiddleware\<close>, which refuses a caller
  without an admin role before the handler starts; the definitions below are the
  handlers. The update object written by \<open>approveEntry\<close> and by both loops of
  \<open>bulkApprove\<close> is the same; \<open>approve_patch\<close> applies it to a row.
\<close>

definition approve_patch :: "WaitlistOptions \<Rightarrow> env \<Rightarrow> WaitlistEntry \<Rightarrow> WaitlistEntry" where
  "approve_patch options ev e =
     e\<lparr> status := Approved,
        inviteCode := Some (uuid ev),
        inviteExpiresAt := Some (date_now ev + expSeconds options * 1000),
        approvedAt := Some (new_date ev),
        updatedAt := new_date ev \<rparr>"

definition reject_patch :: "env \<Rightarrow> WaitlistEntry \<Rightarrow> WaitlistEntry" where
  "reject_patch ev e =
     e\<lparr> status := Rejected, rejectedAt := Some (new_date ev), updatedAt := new_date ev \<rparr>"

text \<open>\<^verbatim>\<open>{ ...entry, ...updated }\<close>: the row the update returned, else the row read.\<close>

fun merged :: "WaitlistEntry \<Rightarrow> WaitlistEntry option \<Rightarrow> WaitlistEntry" where
  "merged entry None = entry"
| "merged entry (Some updated) = updated"

definition approveEntry ::
  "WaitlistOptions \<Rightarrow> env \<Rightarrow> string \<Rightarrow> store \<Rightarrow> APIError + (store \<times> WaitlistEntry)" where
  "approveEntry options ev email_in s =
     (let normalizedEmail = toLowerCase email_in in
      case findOne (\<lambda>e. email e = normalizedEmail) s of
        None \<Rightarrow> Inl (NOT_FOUND, WAITLIST_ENTRY_NOT_FOUND)
      | Some entry \<Rightarrow>
          if status entry = Registered then Inl (BAD_REQUEST, ALREADY_REGISTERED)
          else
            (case adapter_update (\<lambda>e. email e = normalizedEmail) (approve_patch options ev) s of
               (s', updated) \<Rightarrow> Inr (s', merged entry updated)))"

definition rejectEntry ::
  "env \<Rightarrow> string \<Rightarrow> store \<Rightarrow> APIError + (store \<times> WaitlistEntry)" where
  "rejectEntry ev email_in s =
     (let normalizedEmail = toLowerCase email_in in
      case findOne (\<lambda>e. email e = normalizedEmail) s of
        None \<Rightarrow> Inl (NOT_FOUND, WAITLIST_ENTRY_NOT_FOUND)
      | Some entry \<Rightarrow>
          (case adapter_update (\<lambda>e. email e = normalizedEmail) (reject_patch ev) s of
             (s', updated) \<Rightarrow> Inr (s', merged entry updated)))"

text \<open>
  The two loops of \<open>bulkApprove\<close>. The state of a loop is the store and the list
  \<^verbatim>\<open>approved\<close>; iteration \<open>i\<close> draws \<open>evs i\<close>.
\<close>

fun bulk_emails ::
  "WaitlistOptions \<Rightarrow> (nat \<Rightarrow> env) \<Rightarrow> nat \<Rightarrow> string list \<Rightarrow> store \<times> WaitlistEntry list
     \<Rightarrow> store \<times> WaitlistEntry list" where
  "bulk_emails options evs i [] (s, approved) = (s, approved)"
| "bulk_emails options evs i (email_in # rest) (s, approved) =
     (let normalizedEmail = toLowerCase email_in in
      case findOne (\<lambda>e. email e = normalizedEmail) s of
        None \<Rightarrow> bulk_emails options evs (Suc i) rest (s, approved)
      | Some entry \<Rightarrow>
          if status entry \<noteq> Pending then bulk_emails options evs (Suc i) rest (s, approved)
          else bulk_emails options evs (Suc i) rest
                 (fst (adapter_update (\<lambda>e. email e = normalizedEmail)
                         (approve_patch options (evs i)) s),
                  approved @ [approve_patch options (evs i) entry]))"

fun bulk_count ::
  "WaitlistOptions \<Rightarrow> (nat \<Rightarrow> env) \<Rightarrow> nat \<Rightarrow> WaitlistEntry list \<Rightarrow> store \<times> WaitlistEntry list
     \<Rightarrow> store \<times> WaitlistEntry list" where
  "bulk_count options evs i [] (s, approved) = (s, approved)"
| "bulk_count options evs i (entry # rest) (s, approved) =
     bulk_count options evs (Suc i) rest
       (fst (adapter_update (\<lambda>e. entry_id e = entry_id entry)
               (approve_patch options (evs i)) s),
        approved @ [approve_patch options (evs i) entry])"

text \<open>
  \<open>bulkApprove\<close>: the body carries an optional list of emails and an optional positive
  count; \<open>bulkApprove_count\<close> is the \<^verbatim>\<open>else if (count)\<close> branch and
  \<open>pending_rows\<close> its \<^verbatim>\<open>findMany\<close> call (status pending, sorted by position
  ascending, limit count). The response is the list \<^verbatim>\<open>approved\<close> (and its length).
\<close>

definition pending_rows :: "nat \<Rightarrow> store \<Rightarrow> WaitlistEntry list" where
  "pending_rows n s = findMany_asc (\<lambda>e. status e = Pending) position n s"

definition bulkApprove_count ::
  "WaitlistOptions \<Rightarrow> (nat \<Rightarrow> env) \<Rightarrow> nat option \<Rightarrow> store \<Rightarrow> store \<times> WaitlistEntry list" where
  "bulkApprove_count options evs cnt s =
     (case cnt of
        None \<Rightarrow> (s, [])
      | Some n \<Rightarrow>
          if n \<noteq> 0
          then bulk_count options evs 0 (pending_rows n s) (s, [])
          else (s, []))"

definition bulkApprove ::
  "WaitlistOptions \<Rightarrow> (nat \<Rightarrow> env) \<Rightarrow> string list option \<Rightarrow> nat option \<Rightarrow> store
     \<Rightarrow> store \<times> WaitlistEntry list" where
  "bulkApprove options evs emails cnt s =
     (case emails of
        None \<Rightarrow> bulkApprove_count options evs cnt s
      | Some es \<Rightarrow>
          if length es > 0 then bulk_emails options evs 0 es (s, [])
          else bulkApprove_count options evs cnt s)"

section \<open>The plugin (index.ts)\<close>

text \<open>
  A registration attempt as the \<^verbatim>\<open>hooks.before\<close> handler reads it: the email and the
  invite code of the body and the \<^verbatim>\<open>x-invite-code\<close> header. The accounts the host
  knows are the list of their emails; \<open>findUserByEmail\<close> is the host's lookup.
\<close>

record attempt =
  body_email :: "string option"
  body_inviteCode :: "string option"
  header_invite_code :: "string option"

definition findUserByEmail :: "string list \<Rightarrow> string \<Rightarrow> bool" where
  "findUserByEmail users e = (e \<in> set users)"

definition existingUser :: "string list \<Rightarrow> attempt \<Rightarrow> bool" where
  "existingUser users a =
     (case body_email a of
        None \<Rightarrow> False
      | Some em \<Rightarrow> em \<noteq> [] \<and> findUserByEmail users (toLowerCase em))"

definition presented_code :: "attempt \<Rightarrow> string option" where
  "presented_code a =
     (if truthy_str (body_inviteCode a) then body_inviteCode a else header_invite_code a)"

text \<open>\<open>handler\<close>: \<open>Inr ()\<close> lets the attempt through, \<open>Inl\<close> is the thrown error.\<close>

definition handler ::
  "WaitlistOptions \<Rightarrow> int \<Rightarrow> string list \<Rightarrow> attempt \<Rightarrow> store \<Rightarrow> APIError + unit" where
  "handler opts now users a s =
     (if existingUser users a then Inr ()
      else if truthy_bool (requireInviteCode opts) then
        (let code = presented_code a in
         if \<not> truthy_str code then Inl (FORBIDDEN, INVITE_CODE_REQUIRED)
         else
           (case findOne (\<lambda>e. inviteCode e = code \<and> status e = Approved) s of
              None \<Rightarrow> Inl (FORBIDDEN, INVALID_INVITE_CODE)
            | Some entry \<Rightarrow>
                (case inviteExpiresAt entry of
                   Some t \<Rightarrow> if t < now then Inl (FORBIDDEN, INVALID_INVITE_CODE) else Inr ()
                 | None \<Rightarrow> Inr ())))
      else
        (case body_email a of
           None \<Rightarrow> Inr ()
         | Some em \<Rightarrow>
             if em = [] then Inr ()
             else
               (case findOne (\<lambda>e. email e = toLowerCase em) s of
                  None \<Rightarrow> Inl (FORBIDDEN, NOT_APPROVED)
                | Some entry \<Rightarrow>
                    if status entry \<noteq> Approved then Inl (FORBIDDEN, NOT_APPROVED)
                    else Inr ())))"

text \<open>
  \<^verbatim>\<open>databaseHooks.user.create.after\<close>, the step that marks the entry registered, with
  the request context and its adapter present.
\<close>

definition registered_patch :: "env \<Rightarrow> WaitlistEntry \<Rightarrow> WaitlistEntry" where
  "registered_patch ev e =
     e\<lparr> status := Registered, registeredAt := Some (new_date ev), updatedAt := new_date2 ev \<rparr>"

definition user_create_after :: "WaitlistOptions \<Rightarrow> env \<Rightarrow> string option \<Rightarrow> store \<Rightarrow> store" where
  "user_create_after opts ev user_email s =
     (if enabled opts = Some False then s
      else
        (case user_email of
           None \<Rightarrow> s
         | Some em \<Rightarrow>
             if em = [] then s
             else
               (let email' = toLowerCase em in
                case findOne (\<lambda>e. email e = email') s of
                  None \<Rightarrow> s
                | Some entry \<Rightarrow>
                    fst (adapter_update (\<lambda>e. email e = email') (registered_patch ev) s))))"

section \<open>Predicates on stores\<close>

text \<open>
  The store's uniqueness constraint on \<^verbatim>\<open>inviteCode\<close> (schema: \<^verbatim>\<open>unique: true\<close>):
  no two rows carry the same code.
\<close>

definition unique_invite_codes :: "store \<Rightarrow> bool" where
  "unique_invite_codes s = distinct (List.map_filter inviteCode s)"

text \<open>An invite that is past its expiry at the instant \<open>now\<close>.\<close>

definition expired :: "int \<Rightarrow> WaitlistEntry \<Rightarrow> bool" where
  "expired now e = (case inviteExpiresAt e of None \<Rightarrow> False | Some t \<Rightarrow> t < now)"

text \<open>
  \<open>transitions R s s'\<close>: every row of \<open>s\<close> is still a row of \<open>s'\<close>, at the same place,
  and its status is the same or has moved along \<open>R\<close>.
\<close>

definition transitions ::
  "(WaitlistStatus \<Rightarrow> WaitlistStatus \<Rightarrow> bool) \<Rightarrow> store \<Rightarrow> store \<Rightarrow> bool" where
  "transitions R s s' =
     list_all2 (\<lambda>a b. b = a \<or> R a b) (map status s) (map status (take (length s) s'))"

section \<open>Example values\<close>

definition opts0 :: WaitlistOptions where
  "opts0 = \<lparr> enabled = None, requireInviteCode = None, inviteCodeExpiration = None,
     maxWaitlistSize = None, skipAnonymous = None, autoApprove = None,
     interceptPaths = None, adminRoles = None \<rparr>"

definition env0 :: "string \<Rightarrow> env" where
  "env0 i = \<lparr> uuid = ''u-'' @ i, date_now = 0, new_date = 0, new_date2 = 0, new_id = i \<rparr>"

definition ex_entry :: "string \<Rightarrow> string \<Rightarrow> WaitlistStatus \<Rightarrow> int \<Rightarrow> WaitlistEntry" where
  "ex_entry i em st p =
     \<lparr> entry_id = i, email = em, status = st, inviteCode = None, inviteExpiresAt = None,
       position = Some p, referredBy = None, metadata = None, approvedAt = None,
       rejectedAt = None, registeredAt = None, createdAt = 0, updatedAt = 0 \<rparr>"

definition ex_attempt :: "string option \<Rightarrow> string option \<Rightarrow> string option \<Rightarrow> attempt" where
  "ex_attempt em bc hc = \<lparr> body_email = em, body_inviteCode = bc, header_invite_code = hc \<rparr>"

definition ex_invited :: "string \<Rightarrow> string \<Rightarrow> string \<Rightarrow> int \<Rightarrow> WaitlistEntry" where
  "ex_invited i em c t =
     (ex_entry i em Approved 1) \<lparr> inviteCode := Some c, inviteExpiresAt := Some t \<rparr>"

definition evs0 :: "nat \<Rightarrow> env" where
  "evs0 i = env0 (replicate (Suc i) CHR ''k'')"

definition ex_store :: store where
  "ex_store = [ex_entry ''1'' ''a@x.com'' Pending 1, ex_entry ''2'' ''b@x.com'' Approved 2,
     ex_entry ''3'' ''c@x.com'' Rejected 3, ex_entry ''4'' ''d@x.com'' Registered 4]"

section \<open>Properties of the adapter\<close>

lemma findOne_None_iff: "findOne w s = None \<longleftrightarrow> (\<forall>e\<in>set s. \<not> w e)"
  by (auto simp: findOne_def find_None_iff)

lemma findOne_Some_holds: "findOne w s = Some e \<Longrightarrow> w e \<and> e \<in> set s"
  by (auto simp: findOne_def find_Some_iff)

lemma fst_adapter_update_Cons:
  "fst (adapter_update w u (e # s)) = (if w e then u e # s else e # fst (adapter_update w u s))"
  by (simp split: prod.splits)

lemma snd_adapter_update_Cons:
  "snd (adapter_update w u (e # s)) = (if w e then Some (u e) else snd (adapter_update w u s))"
  by (simp split: prod.splits)

lemma length_adapter_update: "length (fst (adapter_update w u s)) = length s"
  by (induction s) (simp_all add: fst_adapter_update_Cons del: adapter_update.simps(2))

lemma adapter_update_nth:
  "i < length s \<Longrightarrow>
     fst (adapter_update w u s) ! i = s ! i
     \<or> (findOne w s = Some (s ! i) \<and> fst (adapter_update w u s) ! i = u (s ! i))"
proof (induction s arbitrary: i)
  case Nil
  then show ?case by simp
next
  case (Cons e s)
  show ?case
  proof (cases "w e")
    case True
    then show ?thesis by (cases i) (simp_all add: findOne_def)
  next
    case False
    show ?thesis
    proof (cases i)
      case 0
      with False show ?thesis
        by (simp add: fst_adapter_update_Cons del: adapter_update.simps(2))
    next
      case (Suc j)
      with Cons.prems have "j < length s" by simp
      from Cons.IH [OF this] False Suc show ?thesis
        by (simp add: findOne_def fst_adapter_update_Cons del: adapter_update.simps(2))
    qed
  qed
qed

lemma adapter_update_result:
  "findOne w s = Some e \<Longrightarrow> snd (adapter_update w u s) = Some (u e)"
  by (induction s)
     (simp_all add: findOne_def snd_adapter_update_Cons del: adapter_update.simps(2)
        split: if_splits)

lemma findOne_adapter_update:
  assumes "\<And>x. w (u x) = w x"
  shows "findOne w (fst (adapter_update w u s)) = map_option u (findOne w s)"
  by (induction s)
     (simp_all add: findOne_def assms fst_adapter_update_Cons del: adapter_update.simps(2))

lemma adapter_update_map:
  assumes "\<And>x. f (u x) = f x"
  shows "map f (fst (adapter_update w u s)) = map f s"
  by (induction s) (simp_all add: assms fst_adapter_update_Cons del: adapter_update.simps(2))

lemma adapter_update_by_id:
  assumes "distinct (map entry_id s)"
  shows "fst (adapter_update (\<lambda>e. entry_id e = a) u s)
       = map (\<lambda>x. if entry_id x = a then u x else x) s"
  using assms
proof (induction s)
  case Nil
  then show ?case by simp
next
  case (Cons e s)
  show ?case
  proof (cases "entry_id e = a")
    case True
    with Cons.prems have "a \<notin> entry_id ` set s" by simp
    then have "\<forall>x\<in>set s. entry_id x \<noteq> a" by blast
    then have "map (\<lambda>x. if entry_id x = a then u x else x) s = s"
      by (simp add: map_idI)
    with True show ?thesis by simp
  next
    case False
    with Cons show ?thesis
      by (simp add: fst_adapter_update_Cons del: adapter_update.simps(2))
  qed
qed

section \<open>Properties of the handlers\<close>

lemma approve_patch_keeps [simp]:
  "position (approve_patch options ev e) = position e"
  "entry_id (approve_patch options ev e) = entry_id e"
  "email (approve_patch options ev e) = email e"
  "status (approve_patch options ev e) = Approved"
  by (simp_all add: approve_patch_def)

lemma reject_patch_keeps [simp]:
  "position (reject_patch ev e) = position e"
  "entry_id (reject_patch ev e) = entry_id e"
  "email (reject_patch ev e) = email e"
  "status (reject_patch ev e) = Rejected"
  by (simp_all add: reject_patch_def)

lemma registered_patch_keeps [simp]:
  "position (registered_patch ev e) = position e"
  "entry_id (registered_patch ev e) = entry_id e"
  "email (registered_patch ev e) = email e"
  "status (registered_patch ev e) = Registered"
  by (simp_all add: registered_patch_def)

lemma joinWaitlist_Inr:
  assumes "joinWaitlist options ev em r m s = Inr (s', e)"
  shows "s' = s @ [e]" and "position e = Some (count_rows s + 1)"
    and "email e = toLowerCase em" and "findOne (\<lambda>x. email x = toLowerCase em) s = None"
  using assms
  by (auto simp: joinWaitlist_def Let_def create_def split: option.splits if_splits)

lemma joinWaitlist_prefix:
  "take (length s) (store_after s (joinWaitlist options ev em r m s)) = s"
proof (cases "joinWaitlist options ev em r m s")
  case (Inl err)
  then show ?thesis by simp
next
  case (Inr p)
  then obtain s' e where "joinWaitlist options ev em r m s = Inr (s', e)" by (cases p) simp
  then show ?thesis using joinWaitlist_Inr(1) by fastforce
qed

lemma approveEntry_map:
  assumes "\<And>ev x. f (approve_patch options ev x) = f x"
  shows "map f (store_after s (approveEntry options ev em s)) = map f s"
proof -
  have "map f (fst (adapter_update w (approve_patch options ev) s)) = map f s" for w
    by (rule adapter_update_map) (rule assms)
  then show ?thesis
    by (simp add: approveEntry_def Let_def split: option.splits prod.splits)
       (metis fst_conv)
qed

lemma rejectEntry_map:
  assumes "\<And>ev x. f (reject_patch ev x) = f x"
  shows "map f (store_after s (rejectEntry ev em s)) = map f s"
proof -
  have "map f (fst (adapter_update w (reject_patch ev) s)) = map f s" for w
    by (rule adapter_update_map) (rule assms)
  then show ?thesis
    by (simp add: rejectEntry_def Let_def split: option.splits prod.splits)
       (metis fst_conv)
qed

lemma user_create_after_map:
  assumes "\<And>ev x. f (registered_patch ev x) = f x"
  shows "map f (user_create_after opts ev uem s) = map f s"
proof -
  have "map f (fst (adapter_update w (registered_patch ev) s)) = map f s" for w
    by (rule adapter_update_map) (rule assms)
  then show ?thesis
    by (simp add: user_create_after_def Let_def split: option.splits)
qed

lemma bulk_emails_map:
  assumes "\<And>ev x. f (approve_patch options ev x) = f x"
  shows "map f (fst (bulk_emails options evs i ems (s, acc))) = map f s"
proof (induction ems arbitrary: i s acc)
  case Nil
  then show ?case by simp
next
  case (Cons em ems)
  have "map f (fst (adapter_update w (approve_patch options (evs i)) s)) = map f s" for w
    by (rule adapter_update_map) (rule assms)
  with Cons show ?case
    by (simp add: Let_def split: option.splits)
qed

lemma bulk_count_map:
  assumes "\<And>ev x. f (approve_patch options ev x) = f x"
  shows "map f (fst (bulk_count options evs i sel (s, acc))) = map f s"
proof (induction sel arbitrary: i s acc)
  case Nil
  then show ?case by simp
next
  case (Cons e sel)
  have "map f (fst (adapter_update w (approve_patch options (evs i)) s)) = map f s" for w
    by (rule adapter_update_map) (rule assms)
  with Cons show ?case by simp
qed

lemma bulkApprove_map:
  assumes "\<And>ev x. f (approve_patch options ev x) = f x"
  shows "map f (fst (bulkApprove options evs ems cnt s)) = map f s"
  by (simp add: bulkApprove_def bulkApprove_count_def
        bulk_emails_map [OF assms] bulk_count_map [OF assms] split: option.splits)

section \<open>Queue position (claim C5)\<close>

text \<open>
  Claim C5. A successful join appends one row whose position is the number of rows in
  the store at that moment plus one; no operation (join, approve, reject, bulk approve,
  the registration step) changes the position of a row that exists; three joins that
  succeed one after the other on an empty store give the positions 1, 2, 3.
\<close>

theorem join_position:
  "(joinWaitlist options ev em r m s = Inr (s', e) \<longrightarrow>
      s' = s @ [e] \<and> position e = Some (count_rows s + 1))
   \<and> take (length s) (store_after s (joinWaitlist options ev em r m s)) = s
   \<and> map position (store_after s (approveEntry options ev em s)) = map position s
   \<and> map position (store_after s (rejectEntry ev em s)) = map position s
   \<and> map position (fst (bulkApprove options evs ems cnt s)) = map position s
   \<and> map position (user_create_after options ev uem s) = map position s
   \<and> (joinWaitlist options ev1 em1 r1 m1 [] = Inr (s1, x1)
        \<and> joinWaitlist options ev2 em2 r2 m2 s1 = Inr (s2, x2)
        \<and> joinWaitlist options ev3 em3 r3 m3 s2 = Inr (s3, x3) \<longrightarrow>
      map position [x1, x2, x3] = [Some 1, Some 2, Some 3]
      \<and> map position s3 = [Some 1, Some 2, Some 3])"
proof -
  have one: "joinWaitlist options ev em r m s = Inr (s', e) \<longrightarrow>
      s' = s @ [e] \<and> position e = Some (count_rows s + 1)"
    using joinWaitlist_Inr(1,2) by blast
  have three: "map position [x1, x2, x3] = [Some 1, Some 2, Some 3]
      \<and> map position s3 = [Some 1, Some 2, Some 3]"
    if j1: "joinWaitlist options ev1 em1 r1 m1 [] = Inr (s1, x1)"
      and j2: "joinWaitlist options ev2 em2 r2 m2 s1 = Inr (s2, x2)"
      and j3: "joinWaitlist options ev3 em3 r3 m3 s2 = Inr (s3, x3)"
  proof -
    from joinWaitlist_Inr(1,2) [OF j1] have a: "s1 = [x1]" "position x1 = Some 1"
      by (simp_all add: count_rows_def)
    from joinWaitlist_Inr(1,2) [OF j2] a have b: "s2 = [x1, x2]" "position x2 = Some 2"
      by (simp_all add: count_rows_def)
    from joinWaitlist_Inr(1,2) [OF j3] b have c: "s3 = [x1, x2, x3]" "position x3 = Some 3"
      by (simp_all add: count_rows_def)
    from a b c show ?thesis by simp
  qed
  show ?thesis
    using one three
    by (simp add: joinWaitlist_prefix approveEntry_map rejectEntry_map bulkApprove_map
          user_create_after_map)
qed

theorem join_position_witness:
  "joinWaitlist opts0 (env0 ''1'') ''A@x.com'' None None []
     = Inr ([ex_entry ''1'' ''a@x.com'' Pending 1], ex_entry ''1'' ''a@x.com'' Pending 1)
   \<and> joinWaitlist opts0 (env0 ''2'') ''b@x.com'' None None [ex_entry ''1'' ''a@x.com'' Pending 1]
     = Inr ([ex_entry ''1'' ''a@x.com'' Pending 1, ex_entry ''2'' ''b@x.com'' Pending 2],
            ex_entry ''2'' ''b@x.com'' Pending 2)
   \<and> joinWaitlist opts0 (env0 ''3'') ''c@x.com'' None None
       [ex_entry ''1'' ''a@x.com'' Pending 1, ex_entry ''2'' ''b@x.com'' Pending 2]
     = Inr ([ex_entry ''1'' ''a@x.com'' Pending 1, ex_entry ''2'' ''b@x.com'' Pending 2,
             ex_entry ''3'' ''c@x.com'' Pending 3],
            ex_entry ''3'' ''c@x.com'' Pending 3)
   \<and> map position [ex_entry ''1'' ''a@x.com'' Pending 1, ex_entry ''2'' ''b@x.com'' Pending 2,
             ex_entry ''3'' ''c@x.com'' Pending 3] = [Some 1, Some 2, Some 3]"
proof -
  have j1: "joinWaitlist opts0 (env0 ''1'') ''A@x.com'' None None []
     = Inr ([ex_entry ''1'' ''a@x.com'' Pending 1], ex_entry ''1'' ''a@x.com'' Pending 1)"
    by code_simp
  have j2: "joinWaitlist opts0 (env0 ''2'') ''b@x.com'' None None [ex_entry ''1'' ''a@x.com'' Pending 1]
     = Inr ([ex_entry ''1'' ''a@x.com'' Pending 1, ex_entry ''2'' ''b@x.com'' Pending 2],
            ex_entry ''2'' ''b@x.com'' Pending 2)"
    by code_simp
  have j3: "joinWaitlist opts0 (env0 ''3'') ''c@x.com'' None None
       [ex_entry ''1'' ''a@x.com'' Pending 1, ex_entry ''2'' ''b@x.com'' Pending 2]
     = Inr ([ex_entry ''1'' ''a@x.com'' Pending 1, ex_entry ''2'' ''b@x.com'' Pending 2,
             ex_entry ''3'' ''c@x.com'' Pending 3],
            ex_entry ''3'' ''c@x.com'' Pending 3)"
    by code_simp
  from join_position [where options = opts0 and ev = "env0 ''1''" and em = "''A@x.com''"
      and r = None and m = None and s = "[]"
      and ?s' = "[ex_entry ''1'' ''a@x.com'' Pending 1]"
      and e = "ex_entry ''1'' ''a@x.com'' Pending 1"
      and ?ev1.0 = "env0 ''1''" and ?em1.0 = "''A@x.com''" and ?r1.0 = None and ?m1.0 = None
      and ?s1.0 = "[ex_entry ''1'' ''a@x.com'' Pending 1]"
      and ?x1.0 = "ex_entry ''1'' ''a@x.com'' Pending 1"
      and ?ev2.0 = "env0 ''2''" and ?em2.0 = "''b@x.com''" and ?r2.0 = None and ?m2.0 = None
      and ?s2.0 = "[ex_entry ''1'' ''a@x.com'' Pending 1, ex_entry ''2'' ''b@x.com'' Pending 2]"
      and ?x2.0 = "ex_entry ''2'' ''b@x.com'' Pending 2"
      and ?ev3.0 = "env0 ''3''" and ?em3.0 = "''c@x.com''" and ?r3.0 = None and ?m3.0 = None
      and ?s3.0 = "[ex_entry ''1'' ''a@x.com'' Pending 1, ex_entry ''2'' ''b@x.com'' Pending 2,
             ex_entry ''3'' ''c@x.com'' Pending 3]"
      and ?x3.0 = "ex_entry ''3'' ''c@x.com'' Pending 3"] j1 j2 j3
  show ?thesis by (simp add: count_rows_def ex_entry_def)
qed

section \<open>One entry per normalized email (claim C6)\<close>

text \<open>
  Claim C6. Two emails that differ only in the case of their letters have the same
  lower-case form. When a join with the first succeeds, a following join with the second
  is refused with EMAIL_ALREADY_IN_WAITLIST, writes nothing, and the store holds exactly
  one row for the normalized email.
\<close>

theorem join_case_insensitive:
  assumes "toLowerCase em1 = toLowerCase em2"
    and "joinWaitlist options ev1 em1 r1 m1 s = Inr (s1, x1)"
  shows "joinWaitlist options' ev2 em2 r2 m2 s1 = Inl (BAD_REQUEST, EMAIL_ALREADY_IN_WAITLIST)
    \<and> store_after s1 (joinWaitlist options' ev2 em2 r2 m2 s1) = s1
    \<and> length (filter (\<lambda>e. email e = toLowerCase em1) s1) = 1"
proof -
  from joinWaitlist_Inr [OF assms(2)]
  have s1: "s1 = s @ [x1]" and x1: "email x1 = toLowerCase em1"
    and none: "findOne (\<lambda>x. email x = toLowerCase em1) s = None"
    by simp_all
  from none have nomatch: "filter (\<lambda>e. email e = toLowerCase em1) s = []"
    by (simp add: findOne_None_iff filter_empty_conv)
  have "findOne (\<lambda>x. email x = toLowerCase em2) s1 \<noteq> None"
    using s1 x1 assms(1) by (simp add: findOne_None_iff)
  then have denied:
    "joinWaitlist options' ev2 em2 r2 m2 s1 = Inl (BAD_REQUEST, EMAIL_ALREADY_IN_WAITLIST)"
    by (auto simp: joinWaitlist_def)
  from denied s1 x1 nomatch show ?thesis by simp
qed

theorem join_case_insensitive_witness:
  "toLowerCase ''A@x.com'' = toLowerCase ''a@x.com''
   \<and> joinWaitlist opts0 (env0 ''1'') ''A@x.com'' None None []
       = Inr ([ex_entry ''1'' ''a@x.com'' Pending 1], ex_entry ''1'' ''a@x.com'' Pending 1)
   \<and> joinWaitlist opts0 (env0 ''2'') ''a@x.com'' None None [ex_entry ''1'' ''a@x.com'' Pending 1]
       = Inl (BAD_REQUEST, EMAIL_ALREADY_IN_WAITLIST)"
proof -
  have l: "toLowerCase ''A@x.com'' = toLowerCase ''a@x.com''"
    by code_simp
  have j1: "joinWaitlist opts0 (env0 ''1'') ''A@x.com'' None None []
     = Inr ([ex_entry ''1'' ''a@x.com'' Pending 1], ex_entry ''1'' ''a@x.com'' Pending 1)"
    by code_simp
  from join_case_insensitive [OF l j1, of opts0 "env0 ''2''" None None] l j1
  show ?thesis by simp
qed

section \<open>Approving an entry (claim C3)\<close>

lemma approveEntry_found:
  assumes found: "findOne (\<lambda>e. email e = toLowerCase em) s = Some entry"
    and live: "status entry \<noteq> Registered"
  shows "approveEntry options ev em s
           = Inr (fst (adapter_update (\<lambda>e. email e = toLowerCase em) (approve_patch options ev) s),
                  approve_patch options ev entry)"
    and "findOne (\<lambda>e. email e = toLowerCase em)
           (fst (adapter_update (\<lambda>e. email e = toLowerCase em) (approve_patch options ev) s))
           = Some (approve_patch options ev entry)"
proof -
  have "snd (adapter_update (\<lambda>e. email e = toLowerCase em) (approve_patch options ev) s)
          = Some (approve_patch options ev entry)"
    using found by (rule adapter_update_result)
  then show "approveEntry options ev em s
           = Inr (fst (adapter_update (\<lambda>e. email e = toLowerCase em) (approve_patch options ev) s),
                  approve_patch options ev entry)"
    using found live by (auto simp: approveEntry_def split: prod.splits)
  show "findOne (\<lambda>e. email e = toLowerCase em)
           (fst (adapter_update (\<lambda>e. email e = toLowerCase em) (approve_patch options ev) s))
           = Some (approve_patch options ev entry)"
    using found by (simp add: findOne_adapter_update)
qed

text \<open>
  Claim C3. When the store holds an entry for the email and its status is not
  registered, approve succeeds; the entry then has status approved, the invite code just
  drawn, an expiry equal to the clock reading plus the configured number of seconds
  (172800 when none is configured), in milliseconds, and approvedAt set; every other row
  is as before. When the status is registered, approve fails with ALREADY_REGISTERED and
  the store is as before.
\<close>

theorem approveEntry_effect:
  assumes "findOne (\<lambda>e. email e = toLowerCase em) s = Some entry"
  shows "(status entry \<noteq> Registered \<longrightarrow>
           (\<exists>s' e'. approveEntry options ev em s = Inr (s', e')
              \<and> findOne (\<lambda>e. email e = toLowerCase em) s' = Some e'
              \<and> status e' = Approved
              \<and> inviteCode e' = Some (uuid ev)
              \<and> inviteExpiresAt e' =
                  Some (date_now ev
                        + (case inviteCodeExpiration options of None \<Rightarrow> 172800 | Some n \<Rightarrow> n) * 1000)
              \<and> approvedAt e' = Some (new_date ev)
              \<and> length s' = length s
              \<and> (\<forall>i<length s. s ! i \<noteq> entry \<longrightarrow> s' ! i = s ! i)))
       \<and> (status entry = Registered \<longrightarrow>
           approveEntry options ev em s = Inl (BAD_REQUEST, ALREADY_REGISTERED)
           \<and> store_after s (approveEntry options ev em s) = s)"
proof (cases "status entry = Registered")
  case True
  with assms show ?thesis by (simp add: approveEntry_def)
next
  case False
  let ?w = "\<lambda>e. email e = toLowerCase em"
  let ?s' = "fst (adapter_update ?w (approve_patch options ev) s)"
  let ?e' = "approve_patch options ev entry"
  have others: "\<forall>i<length s. s ! i \<noteq> entry \<longrightarrow> ?s' ! i = s ! i"
    using adapter_update_nth [of _ s ?w "approve_patch options ev"] assms by auto
  have fields: "status ?e' = Approved \<and> inviteCode ?e' = Some (uuid ev)
      \<and> inviteExpiresAt ?e' =
          Some (date_now ev
                + (case inviteCodeExpiration options of None \<Rightarrow> 172800 | Some n \<Rightarrow> n) * 1000)
      \<and> approvedAt ?e' = Some (new_date ev)"
    by (simp add: approve_patch_def expSeconds_def)
  from approveEntry_found [OF assms False] fields others False show ?thesis
    by (simp add: length_adapter_update)
qed

theorem approveEntry_effect_witness:
  "approveEntry opts0 (env0 ''1'') ''A@x.com'' [ex_entry ''1'' ''a@x.com'' Pending 1]
     = Inr ([(ex_entry ''1'' ''a@x.com'' Approved 1)
               \<lparr> inviteCode := Some ''u-1'', inviteExpiresAt := Some 172800000,
                 approvedAt := Some 0 \<rparr>],
            (ex_entry ''1'' ''a@x.com'' Approved 1)
               \<lparr> inviteCode := Some ''u-1'', inviteExpiresAt := Some 172800000,
                 approvedAt := Some 0 \<rparr>)
   \<and> approveEntry opts0 (env0 ''1'') ''A@x.com'' [ex_entry ''1'' ''a@x.com'' Registered 1]
     = Inl (BAD_REQUEST, ALREADY_REGISTERED)"
proof -
  have f1: "findOne (\<lambda>e. email e = toLowerCase ''A@x.com'') [ex_entry ''1'' ''a@x.com'' Pending 1]
      = Some (ex_entry ''1'' ''a@x.com'' Pending 1)"
    by code_simp
  have f2: "findOne (\<lambda>e. email e = toLowerCase ''A@x.com'') [ex_entry ''1'' ''a@x.com'' Registered 1]
      = Some (ex_entry ''1'' ''a@x.com'' Registered 1)"
    by code_simp
  have a1: "approveEntry opts0 (env0 ''1'') ''A@x.com'' [ex_entry ''1'' ''a@x.com'' Pending 1]
     = Inr ([(ex_entry ''1'' ''a@x.com'' Approved 1)
               \<lparr> inviteCode := Some ''u-1'', inviteExpiresAt := Some 172800000,
                 approvedAt := Some 0 \<rparr>],
            (ex_entry ''1'' ''a@x.com'' Approved 1)
               \<lparr> inviteCode := Some ''u-1'', inviteExpiresAt := Some 172800000,
                 approvedAt := Some 0 \<rparr>)"
    by code_simp
  from approveEntry_effect [OF f1, of opts0 "env0 ''1''"]
       approveEntry_effect [OF f2, of opts0 "env0 ''1''"] a1
  show ?thesis by (simp add: ex_entry_def)
qed

section \<open>Rejecting twice (claim C8)\<close>

text \<open>
  Claim C8. Reject on an entry that is already rejected succeeds, returns the entry with
  status rejected, and leaves every status in the store as it was.
\<close>

theorem rejectEntry_idempotent:
  assumes "findOne (\<lambda>e. email e = toLowerCase em) s = Some entry"
    and "status entry = Rejected"
  shows "\<exists>s' e'. rejectEntry ev em s = Inr (s', e')
           \<and> status e' = Rejected
           \<and> findOne (\<lambda>e. email e = toLowerCase em) s' = Some e'
           \<and> map status s' = map status s"
proof -
  let ?w = "\<lambda>e. email e = toLowerCase em"
  let ?s' = "fst (adapter_update ?w (reject_patch ev) s)"
  have "snd (adapter_update ?w (reject_patch ev) s) = Some (reject_patch ev entry)"
    using assms(1) by (rule adapter_update_result)
  then have run: "rejectEntry ev em s = Inr (?s', reject_patch ev entry)"
    using assms(1) by (auto simp: rejectEntry_def split: prod.splits)
  have found: "findOne ?w ?s' = Some (reject_patch ev entry)"
    using assms(1) by (simp add: findOne_adapter_update)
  have "status (?s' ! i) = status (s ! i)" if "i < length s" for i
    using adapter_update_nth [OF that, of ?w "reject_patch ev"] assms by auto
  then have "map status ?s' = map status s"
    by (simp add: list_eq_iff_nth_eq length_adapter_update)
  with run found show ?thesis by simp
qed

theorem rejectEntry_idempotent_witness:
  "rejectEntry (env0 ''1'') ''A@x.com'' [ex_entry ''1'' ''a@x.com'' Rejected 1]
     = Inr ([(ex_entry ''1'' ''a@x.com'' Rejected 1) \<lparr> rejectedAt := Some 0 \<rparr>],
            (ex_entry ''1'' ''a@x.com'' Rejected 1) \<lparr> rejectedAt := Some 0 \<rparr>)"
proof -
  have f: "findOne (\<lambda>e. email e = toLowerCase ''A@x.com'') [ex_entry ''1'' ''a@x.com'' Rejected 1]
      = Some (ex_entry ''1'' ''a@x.com'' Rejected 1)"
    by code_simp
  have st: "status (ex_entry ''1'' ''a@x.com'' Rejected 1) = Rejected"
    by (simp add: ex_entry_def)
  have r: "rejectEntry (env0 ''1'') ''A@x.com'' [ex_entry ''1'' ''a@x.com'' Rejected 1]
     = Inr ([(ex_entry ''1'' ''a@x.com'' Rejected 1) \<lparr> rejectedAt := Some 0 \<rparr>],
            (ex_entry ''1'' ''a@x.com'' Rejected 1) \<lparr> rejectedAt := Some 0 \<rparr>)"
    by code_simp
  from rejectEntry_idempotent [OF f st, of "env0 ''1''"] r show ?thesis by simp
qed

section \<open>The before hook without invite codes (claim C2)\<close>

text \<open>
  Claim C2. With requireInviteCode off, for an attempt that carries an email for which
  no account exists: the handler throws NOT_APPROVED when the store has no entry for the
  email or an entry whose status is not approved (pending in particular), and lets the
  attempt through when the status is approved; after a successful approve of the email
  the handler lets the attempt through.
\<close>

theorem before_hook_requires_approved:
  assumes "\<not> truthy_bool (requireInviteCode opts)"
    and "body_email a = Some em" and "em \<noteq> []"
    and "\<not> findUserByEmail users (toLowerCase em)"
  shows "(findOne (\<lambda>e. email e = toLowerCase em) s = None \<longrightarrow>
            handler opts now users a s = Inl (FORBIDDEN, NOT_APPROVED))
       \<and> (\<forall>entry. findOne (\<lambda>e. email e = toLowerCase em) s = Some entry \<longrightarrow>
            (status entry \<noteq> Approved \<longrightarrow>
               handler opts now users a s = Inl (FORBIDDEN, NOT_APPROVED))
            \<and> (status entry = Approved \<longrightarrow> handler opts now users a s = Inr ()))
       \<and> (\<forall>s' e'. approveEntry options ev em s = Inr (s', e') \<longrightarrow>
            handler opts now users a s' = Inr ())"
proof -
  have nouser: "\<not> existingUser users a"
    using assms by (simp add: existingUser_def)
  have hook: "handler opts now users a t =
      (case findOne (\<lambda>e. email e = toLowerCase em) t of
         None \<Rightarrow> Inl (FORBIDDEN, NOT_APPROVED)
       | Some entry \<Rightarrow>
           if status entry \<noteq> Approved then Inl (FORBIDDEN, NOT_APPROVED) else Inr ())" for t
    using assms nouser by (simp add: handler_def)
  have after: "handler opts now users a s' = Inr ()"
    if run: "approveEntry options ev em s = Inr (s', e')" for s' e'
  proof (cases "findOne (\<lambda>e. email e = toLowerCase em) s")
    case None
    with run show ?thesis by (simp add: approveEntry_def)
  next
    case (Some entry)
    with run have live: "status entry \<noteq> Registered"
      by (auto simp: approveEntry_def split: if_splits)
    from approveEntry_found [OF Some live, of options ev] run
    have "findOne (\<lambda>e. email e = toLowerCase em) s' = Some (approve_patch options ev entry)"
      by simp
    then show ?thesis by (simp add: hook)
  qed
  from after show ?thesis by (simp add: hook)
qed

theorem before_hook_requires_approved_witness:
  "handler opts0 5 [] (ex_attempt (Some ''A@x.com'') None None) []
     = Inl (FORBIDDEN, NOT_APPROVED)
   \<and> handler opts0 5 [] (ex_attempt (Some ''A@x.com'') None None)
       [ex_entry ''1'' ''a@x.com'' Pending 1] = Inl (FORBIDDEN, NOT_APPROVED)
   \<and> handler opts0 5 [] (ex_attempt (Some ''A@x.com'') None None)
       (store_after [ex_entry ''1'' ''a@x.com'' Pending 1] (approveEntry opts0 (env0 ''1'') ''A@x.com''
          [ex_entry ''1'' ''a@x.com'' Pending 1])) = Inr ()"
proof -
  have h: "\<not> truthy_bool (requireInviteCode opts0)"
    "body_email (ex_attempt (Some ''A@x.com'') None None) = Some ''A@x.com''"
    "''A@x.com'' \<noteq> []"
    "\<not> findUserByEmail [] (toLowerCase ''A@x.com'')"
    by (simp_all add: opts0_def ex_attempt_def findUserByEmail_def)
  have f0: "findOne (\<lambda>e. email e = toLowerCase ''A@x.com'') [] = None"
    by (simp add: findOne_def)
  have f1: "findOne (\<lambda>e. email e = toLowerCase ''A@x.com'') [ex_entry ''1'' ''a@x.com'' Pending 1]
      = Some (ex_entry ''1'' ''a@x.com'' Pending 1)"
    by code_simp
  have a1: "approveEntry opts0 (env0 ''1'') ''A@x.com'' [ex_entry ''1'' ''a@x.com'' Pending 1]
     = Inr ([ex_invited ''1'' ''a@x.com'' ''u-1'' 172800000 \<lparr> approvedAt := Some 0 \<rparr>],
            ex_invited ''1'' ''a@x.com'' ''u-1'' 172800000 \<lparr> approvedAt := Some 0 \<rparr>)"
    by code_simp
  from before_hook_requires_approved [OF h, of "[]" 5]
       before_hook_requires_approved [OF h, of "[ex_entry ''1'' ''a@x.com'' Pending 1]" 5
         opts0 "env0 ''1''"] f0 f1 a1
  show ?thesis by (simp add: ex_entry_def)
qed

section \<open>Invite codes (claims C4 and C9)\<close>

lemma code_in_map_filter:
  "e \<in> set s \<Longrightarrow> inviteCode e = Some c \<Longrightarrow> c \<in> set (List.map_filter inviteCode s)"
  by (induction s) (auto split: option.splits)

lemma unique_code_row:
  assumes "unique_invite_codes s" and "a \<in> set s" and "b \<in> set s"
    and "inviteCode a = Some c" and "inviteCode b = Some c"
  shows "a = b"
  using assms unfolding unique_invite_codes_def
proof (induction s)
  case Nil
  then show ?case by simp
next
  case (Cons x s)
  show ?case
  proof (cases "inviteCode x")
    case None
    with Cons show ?thesis by auto
  next
    case (Some d)
    with Cons.prems(1) have d: "d \<notin> set (List.map_filter inviteCode s)"
      and rest: "distinct (List.map_filter inviteCode s)"
      by simp_all
    from d have fresh: "\<forall>e\<in>set s. inviteCode e \<noteq> Some d"
      using code_in_map_filter by blast
    show ?thesis
    proof (cases "a = x")
      case True
      with Some Cons.prems fresh show ?thesis by auto
    next
      case False
      with Cons.prems have a: "a \<in> set s" by simp
      show ?thesis
      proof (cases "b = x")
        case True
        with Some Cons.prems fresh a show ?thesis by auto
      next
        case False
        with Cons.prems have "b \<in> set s" by simp
        with Cons.IH [OF rest a] Cons.prems show ?thesis by simp
      qed
    qed
  qed
qed

lemma findOne_code:
  assumes "unique_invite_codes s" and "e \<in> set s"
    and "inviteCode e = Some code" and "status e = Approved"
  shows "findOne (\<lambda>x. inviteCode x = Some code \<and> status x = Approved) s = Some e"
proof (cases "findOne (\<lambda>x. inviteCode x = Some code \<and> status x = Approved) s")
  case None
  with assms show ?thesis by (auto simp: findOne_None_iff)
next
  case (Some e0)
  from findOne_Some_holds [OF Some] have "e0 \<in> set s" "inviteCode e0 = Some code" by simp_all
  with assms have "e0 = e" by (metis unique_code_row)
  with Some show ?thesis by simp
qed

text \<open>
  Claim C4. The handler has no throwing branch: its result is always a pair
  \<^verbatim>\<open>{valid, email}\<close>. On a store whose invite codes are unique, the result is valid with
  the entry's email for an entry that carries the code, has status approved and whose
  expiry is not before the instant of the check; when the store has no such entry the
  result is \<^verbatim>\<open>{valid: false, email: null}\<close>. So valid is true exactly when such an
  entry exists.
\<close>

theorem verifyInviteCode_exact:
  assumes "unique_invite_codes s"
  shows "(\<forall>e\<in>set s. inviteCode e = Some code \<and> status e = Approved \<and> \<not> expired now e \<longrightarrow>
            verifyInviteCode now code s = (True, Some (email e)))
       \<and> ((\<forall>e\<in>set s. \<not> (inviteCode e = Some code \<and> status e = Approved \<and> \<not> expired now e)) \<longrightarrow>
            verifyInviteCode now code s = (False, None))
       \<and> (fst (verifyInviteCode now code s) \<longleftrightarrow>
            (\<exists>e\<in>set s. inviteCode e = Some code \<and> status e = Approved \<and> \<not> expired now e))"
proof -
  have yes: "verifyInviteCode now code s = (True, Some (email e))"
    if "e \<in> set s" "inviteCode e = Some code" "status e = Approved" "\<not> expired now e" for e
    using findOne_code [OF assms that(1-3)] that(4)
    by (simp add: verifyInviteCode_def expired_def split: option.splits)
  have no: "verifyInviteCode now code s = (False, None)"
    if none: "\<forall>e\<in>set s. \<not> (inviteCode e = Some code \<and> status e = Approved \<and> \<not> expired now e)"
  proof (cases "findOne (\<lambda>x. inviteCode x = Some code \<and> status x = Approved) s")
    case None
    then show ?thesis by (simp add: verifyInviteCode_def)
  next
    case (Some e0)
    from findOne_Some_holds [OF Some] none have "expired now e0" by blast
    with Some show ?thesis
      by (simp add: verifyInviteCode_def expired_def split: option.splits)
  qed
  from yes no show ?thesis by (metis fst_conv)
qed

theorem verifyInviteCode_exact_witness:
  "unique_invite_codes [ex_invited ''1'' ''a@x.com'' ''c1'' 60000, ex_entry ''2'' ''b@x.com'' Pending 2]
   \<and> verifyInviteCode 0 ''c1'' [ex_invited ''1'' ''a@x.com'' ''c1'' 60000, ex_entry ''2'' ''b@x.com'' Pending 2]
       = (True, Some ''a@x.com'')
   \<and> verifyInviteCode 60000 ''c1'' [ex_invited ''1'' ''a@x.com'' ''c1'' 60000, ex_entry ''2'' ''b@x.com'' Pending 2]
       = (True, Some ''a@x.com'')
   \<and> verifyInviteCode 60001 ''c1'' [ex_invited ''1'' ''a@x.com'' ''c1'' 60000, ex_entry ''2'' ''b@x.com'' Pending 2]
       = (False, None)
   \<and> verifyInviteCode 0 ''zz'' [ex_invited ''1'' ''a@x.com'' ''c1'' 60000, ex_entry ''2'' ''b@x.com'' Pending 2]
       = (False, None)"
proof -
  let ?s = "[ex_invited ''1'' ''a@x.com'' ''c1'' 60000, ex_entry ''2'' ''b@x.com'' Pending 2]"
  have u: "unique_invite_codes ?s"
    by (simp add: unique_invite_codes_def ex_invited_def ex_entry_def)
  from verifyInviteCode_exact [OF u, of "''c1''" 0]
       verifyInviteCode_exact [OF u, of "''c1''" 60000]
       verifyInviteCode_exact [OF u, of "''c1''" 60001]
       verifyInviteCode_exact [OF u, of "''zz''" 0] u
  show ?thesis by (simp add: ex_invited_def ex_entry_def expired_def)
qed

text \<open>
  Claim C9. With requireInviteCode on, on a store whose invite codes are unique, an
  attempt that presents (in the body, else in the header) the code of any entry that is
  approved and not expired is let through, whatever email the attempt carries and
  whatever entry, if any, the store holds for that email.
\<close>

theorem before_hook_accepts_any_invite:
  assumes "unique_invite_codes s"
    and "truthy_bool (requireInviteCode opts)"
    and "presented_code a = Some code" and "code \<noteq> []"
    and "e \<in> set s" and "inviteCode e = Some code" and "status e = Approved"
    and "\<not> expired now e"
  shows "handler opts now users a s = Inr ()"
  using findOne_code [OF assms(1,5,6,7)] assms(2,3,4,8)
  by (simp add: handler_def expired_def split: option.splits)

theorem before_hook_accepts_any_invite_witness:
  "handler (opts0 \<lparr> requireInviteCode := Some True \<rparr>) 0 []
       (ex_attempt (Some ''b@x.com'') None (Some ''c1''))
       [ex_invited ''1'' ''a@x.com'' ''c1'' 60000, ex_entry ''2'' ''b@x.com'' Pending 2] = Inr ()
   \<and> handler (opts0 \<lparr> requireInviteCode := Some True \<rparr>) 0 []
       (ex_attempt (Some ''nobody@x.com'') (Some ''c1'') None)
       [ex_invited ''1'' ''a@x.com'' ''c1'' 60000, ex_entry ''2'' ''b@x.com'' Rejected 2] = Inr ()"
proof -
  let ?o = "opts0 \<lparr> requireInviteCode := Some True \<rparr>"
  let ?s = "[ex_invited ''1'' ''a@x.com'' ''c1'' 60000, ex_entry ''2'' ''b@x.com'' Pending 2]"
  let ?t = "[ex_invited ''1'' ''a@x.com'' ''c1'' 60000, ex_entry ''2'' ''b@x.com'' Rejected 2]"
  let ?e = "ex_invited ''1'' ''a@x.com'' ''c1'' 60000"
  have u: "unique_invite_codes ?s" "unique_invite_codes ?t"
    by (simp_all add: unique_invite_codes_def ex_invited_def ex_entry_def)
  have r: "truthy_bool (requireInviteCode ?o)" by simp
  have p: "presented_code (ex_attempt (Some ''b@x.com'') None (Some ''c1'')) = Some ''c1''"
    "presented_code (ex_attempt (Some ''nobody@x.com'') (Some ''c1'') None) = Some ''c1''"
    by (simp_all add: presented_code_def ex_attempt_def)
  have e: "?e \<in> set ?s" "?e \<in> set ?t" "inviteCode ?e = Some ''c1''" "status ?e = Approved"
    "\<not> expired 0 ?e" "''c1'' \<noteq> []"
    by (simp_all add: ex_invited_def ex_entry_def expired_def)
  from before_hook_accepts_any_invite [OF u(1) r p(1) e(6) e(1) e(3) e(4) e(5), of "[]"]
       before_hook_accepts_any_invite [OF u(2) r p(2) e(6) e(2) e(3) e(4) e(5), of "[]"]
  show ?thesis by simp
qed

section \<open>Bulk approval (claims C10 and C7)\<close>

lemma bulk_emails_untouched:
  assumes "i < length s" and "email (s ! i) \<notin> toLowerCase ` set ems"
  shows "fst (bulk_emails options evs k ems (s, acc)) ! i = s ! i"
  using assms
proof (induction ems arbitrary: k s acc)
  case Nil
  then show ?case by simp
next
  case (Cons em ems)
  let ?w = "\<lambda>e. email e = toLowerCase em"
  let ?s' = "fst (adapter_update ?w (approve_patch options (evs k)) s)"
  from Cons.prems have other: "email (s ! i) \<noteq> toLowerCase em"
    and rest: "email (s ! i) \<notin> toLowerCase ` set ems"
    by auto
  have same: "?s' ! i = s ! i"
    using adapter_update_nth [OF Cons.prems(1), of ?w "approve_patch options (evs k)"] other
    by (auto dest: findOne_Some_holds)
  have len: "i < length ?s'"
    using Cons.prems(1) by (simp add: length_adapter_update)
  have a: "fst (bulk_emails options evs (Suc k) ems (s, acc)) ! i = s ! i" for acc
    using Cons.IH [OF Cons.prems(1) rest] .
  have b: "fst (bulk_emails options evs (Suc k) ems (?s', acc)) ! i = s ! i" for acc
    using Cons.IH [OF len] rest same by simp
  show ?case
    by (simp add: a b Let_def split: option.splits)
qed

text \<open>
  Claim C10. With a non-empty list of emails the result of \<open>bulkApprove\<close> is that of
  the loop over the emails, whatever the count is, and a row whose email is not in the
  list is left as it is; the selection by count runs when the list is absent or empty
  and the count is not zero.
\<close>

theorem bulkApprove_emails_first:
  "(es \<noteq> [] \<longrightarrow>
      bulkApprove options evs (Some es) cnt s = bulk_emails options evs 0 es (s, [])
      \<and> bulkApprove options evs (Some es) cnt s = bulkApprove options evs (Some es) None s
      \<and> (\<forall>i<length s. email (s ! i) \<notin> toLowerCase ` set es \<longrightarrow>
            fst (bulkApprove options evs (Some es) cnt s) ! i = s ! i))
   \<and> (n \<noteq> 0 \<longrightarrow>
      bulkApprove options evs None (Some n) s
        = bulk_count options evs 0 (pending_rows n s) (s, [])
      \<and> bulkApprove options evs (Some []) (Some n) s
        = bulk_count options evs 0 (pending_rows n s) (s, []))"
  by (simp add: bulkApprove_def bulkApprove_count_def bulk_emails_untouched)

theorem bulkApprove_emails_first_witness:
  "map status (fst (bulkApprove opts0 evs0 (Some [''B@x.com'']) (Some 2)
       [ex_entry ''1'' ''a@x.com'' Pending 1, ex_entry ''2'' ''b@x.com'' Pending 2]))
     = [Pending, Approved]
   \<and> map status (fst (bulkApprove opts0 evs0 (Some []) (Some 2)
       [ex_entry ''1'' ''a@x.com'' Pending 1, ex_entry ''2'' ''b@x.com'' Pending 2]))
     = [Approved, Approved]
   \<and> map status (fst (bulkApprove opts0 evs0 None (Some 2)
       [ex_entry ''1'' ''a@x.com'' Pending 1, ex_entry ''2'' ''b@x.com'' Pending 2]))
     = [Approved, Approved]"
proof -
  let ?s = "[ex_entry ''1'' ''a@x.com'' Pending 1, ex_entry ''2'' ''b@x.com'' Pending 2]"
  have l: "map status (fst (bulk_emails opts0 evs0 0 [''B@x.com''] (?s, []))) = [Pending, Approved]"
    by code_simp
  have c: "map status (fst (bulk_count opts0 evs0 0 (pending_rows 2 ?s) (?s, [])))
      = [Approved, Approved]"
    by code_simp
  from bulkApprove_emails_first [of "[''B@x.com'']" opts0 evs0 "Some 2" ?s 2] l c
  show ?thesis by simp
qed

lemma bulk_count_rows:
  assumes "distinct (map entry_id s)" and "distinct (map entry_id sel)" and "j < length s"
  shows "(entry_id (s ! j) \<notin> entry_id ` set sel \<longrightarrow>
            fst (bulk_count options evs k sel (s, acc)) ! j = s ! j)
       \<and> (\<forall>m<length sel. entry_id (sel ! m) = entry_id (s ! j) \<longrightarrow>
            fst (bulk_count options evs k sel (s, acc)) ! j
              = approve_patch options (evs (k + m)) (s ! j))"
  using assms
proof (induction sel arbitrary: k s acc)
  case Nil
  then show ?case by simp
next
  case (Cons e sel)
  let ?p = "approve_patch options (evs k)"
  let ?s1 = "map (\<lambda>x. if entry_id x = entry_id e then ?p x else x) s"
  let ?acc1 = "acc @ [?p e]"
  let ?r = "fst (bulk_count options evs (Suc k) sel (?s1, ?acc1))"
  have step: "fst (bulk_count options evs k (e # sel) (s, acc)) = ?r"
    using adapter_update_by_id [OF Cons.prems(1), of "entry_id e" ?p] by simp
  have ids: "map entry_id ?s1 = map entry_id s"
    by (simp add: comp_def)
  have d1: "distinct (map entry_id ?s1)"
    by (simp only: ids Cons.prems(1))
  from Cons.prems(2) have d2: "distinct (map entry_id sel)"
    and fresh: "entry_id e \<notin> entry_id ` set sel"
    by simp_all
  have j1: "j < length ?s1"
    using Cons.prems(3) by simp
  note IH = Cons.IH [OF d1 d2 j1, of "Suc k" ?acc1]
  show ?case
  proof (cases "entry_id (s ! j) = entry_id e")
    case True
    then have row: "?s1 ! j = ?p (s ! j)"
      using Cons.prems(3) by simp
    then have "entry_id (?s1 ! j) \<notin> entry_id ` set sel"
      using True fresh by simp
    with IH row have res: "?r ! j = ?p (s ! j)"
      by simp
    have zero: "m = 0" if "m < length (e # sel)" "entry_id ((e # sel) ! m) = entry_id (s ! j)" for m
    proof (cases m)
      case 0
      then show ?thesis .
    next
      case (Suc m')
      with that True have "m' < length sel" "entry_id (sel ! m') = entry_id e"
        by simp_all
      then have "entry_id e \<in> entry_id ` set sel"
        by (metis imageI nth_mem)
      with fresh show ?thesis by simp
    qed
    have "?r ! j = approve_patch options (evs (k + m)) (s ! j)"
      if "m < length (e # sel)" "entry_id ((e # sel) ! m) = entry_id (s ! j)" for m
      using zero [OF that] res by simp
    with True show ?thesis
      unfolding step by simp
  next
    case False
    then have row: "?s1 ! j = s ! j"
      using Cons.prems(3) by simp
    have a: "entry_id (s ! j) \<notin> entry_id ` set (e # sel) \<longrightarrow> ?r ! j = s ! j"
      using IH row by simp
    have b: "?r ! j = approve_patch options (evs (k + m)) (s ! j)"
      if "m < length (e # sel)" "entry_id ((e # sel) ! m) = entry_id (s ! j)" for m
    proof (cases m)
      case 0
      with that False show ?thesis by simp
    next
      case (Suc m')
      with that have "m' < length sel" "entry_id (sel ! m') = entry_id (?s1 ! j)"
        using row by simp_all
      with IH have "?r ! j = approve_patch options (evs (Suc k + m')) (?s1 ! j)"
        by blast
      with row Suc show ?thesis by simp
    qed
    from a b show ?thesis
      unfolding step by blast
  qed
qed

lemma bulk_count_approved:
  "snd (bulk_count options evs k sel (s, acc))
     = acc @ map (\<lambda>(m, e). approve_patch options (evs m) e) (enumerate k sel)"
  by (induction sel arbitrary: k s acc) simp_all

lemma pending_rows_facts:
  "set (pending_rows n s) \<subseteq> {e \<in> set s. status e = Pending}"
  "length (pending_rows n s) = min n (length (filter (\<lambda>e. status e = Pending) s))"
  "sorted (map position (pending_rows n s))"
  "distinct (map entry_id s) \<Longrightarrow> distinct (map entry_id (pending_rows n s))"
proof -
  let ?xs = "sort_key position (filter (\<lambda>e. status e = Pending) s)"
  have "set (take n ?xs) \<subseteq> set ?xs" by (rule set_take_subset)
  then show sub: "set (pending_rows n s) \<subseteq> {e \<in> set s. status e = Pending}"
    by (auto simp: pending_rows_def findMany_asc_def)
  show "length (pending_rows n s) = min n (length (filter (\<lambda>e. status e = Pending) s))"
    by (simp add: pending_rows_def findMany_asc_def min.commute)
  have "sorted (map position ?xs)" by (rule sorted_sort_key)
  then have "sorted (take n (map position ?xs))" by (rule sorted_wrt_take)
  then show "sorted (map position (pending_rows n s))"
    by (simp add: pending_rows_def findMany_asc_def take_map)
  assume d: "distinct (map entry_id s)"
  then have inj: "inj_on entry_id (set s)" and ds: "distinct s"
    by (simp_all add: distinct_map)
  from ds have "distinct (take n ?xs)" by simp
  moreover from sub inj have "inj_on entry_id (set (pending_rows n s))"
    by (auto intro: inj_on_subset)
  ultimately show "distinct (map entry_id (pending_rows n s))"
    by (simp add: distinct_map pending_rows_def findMany_asc_def)
qed

lemma pending_rows_oldest:
  assumes "e \<in> set s" and "status e = Pending" and "e \<notin> set (pending_rows n s)"
    and "e' \<in> set (pending_rows n s)"
  shows "position e' \<le> position e"
proof -
  let ?xs = "sort_key position (filter (\<lambda>e. status e = Pending) s)"
  have "sorted (map position ?xs)" by (rule sorted_sort_key)
  then have "sorted (map position (take n ?xs @ drop n ?xs))"
    by (simp only: append_take_drop_id)
  then have le: "\<forall>x\<in>set (take n ?xs). \<forall>y\<in>set (drop n ?xs). position x \<le> position y"
    by (simp add: sorted_append del: append_take_drop_id)
  from assms(1,2) have "e \<in> set ?xs" by simp
  then have "e \<in> set (take n ?xs) \<union> set (drop n ?xs)"
    by (metis append_take_drop_id set_append)
  with assms(3) have "e \<in> set (drop n ?xs)"
    by (simp add: pending_rows_def findMany_asc_def)
  with le assms(4) show ?thesis
    by (simp add: pending_rows_def findMany_asc_def)
qed

lemma bulk_count_selected:
  assumes "distinct (map entry_id s)" and "j < length s"
  shows "(s ! j \<notin> set (pending_rows n s) \<longrightarrow>
            fst (bulk_count options evs 0 (pending_rows n s) (s, [])) ! j = s ! j)
       \<and> (\<forall>m<length (pending_rows n s). pending_rows n s ! m = s ! j \<longrightarrow>
            fst (bulk_count options evs 0 (pending_rows n s) (s, [])) ! j
              = approve_patch options (evs m) (s ! j))"
proof -
  let ?sel = "pending_rows n s"
  from assms(1) have inj: "inj_on entry_id (set s)"
    by (simp add: distinct_map)
  have sub: "set ?sel \<subseteq> set s"
    using pending_rows_facts(1) [of n s] by blast
  have dsel: "distinct (map entry_id ?sel)"
    using assms(1) by (rule pending_rows_facts(4))
  from assms(2) have mem: "s ! j \<in> set s" by simp
  have "entry_id (s ! j) \<notin> entry_id ` set ?sel" if "s ! j \<notin> set ?sel"
  proof
    assume "entry_id (s ! j) \<in> entry_id ` set ?sel"
    then obtain x where x: "x \<in> set ?sel" "entry_id x = entry_id (s ! j)" by auto
    with sub mem inj have "x = s ! j" by (auto dest: inj_onD)
    with x that show False by simp
  qed
  with bulk_count_rows [OF assms(1) dsel assms(2), of options evs 0 "[]"]
  show ?thesis by simp
qed

lemma bulk_count_status:
  assumes "distinct (map entry_id s)" and "j < length s"
  shows "status (fst (bulk_count options evs 0 (pending_rows n s) (s, [])) ! j)
           = (if s ! j \<in> set (pending_rows n s) then Approved else status (s ! j))"
proof (cases "s ! j \<in> set (pending_rows n s)")
  case True
  then obtain m where "m < length (pending_rows n s)" "pending_rows n s ! m = s ! j"
    by (auto simp: in_set_conv_nth)
  with bulk_count_selected [OF assms, of n options evs]
  have "fst (bulk_count options evs 0 (pending_rows n s) (s, [])) ! j
          = approve_patch options (evs m) (s ! j)"
    by blast
  with True show ?thesis by simp
next
  case False
  with bulk_count_selected [OF assms, of n options evs] show ?thesis by simp
qed

text \<open>
  Claim C7. With no list of emails and a count \<open>n\<close>, on a store whose row identifiers
  are distinct, \<open>bulkApprove\<close> selects rows that are pending, as many as \<open>n\<close> or all the
  pending rows if they are fewer, in ascending order of position, every pending row left
  out having a position at least that of every selected row; it writes the approve
  update to each selected row, leaves every other row as it is, and returns the
  selected rows as updated.
\<close>

theorem bulkApprove_by_count:
  assumes "distinct (map entry_id s)" and "n \<noteq> 0" and "ems = None \<or> ems = Some []"
  shows "set (pending_rows n s) \<subseteq> {e \<in> set s. status e = Pending}
    \<and> length (pending_rows n s) = min n (length (filter (\<lambda>e. status e = Pending) s))
    \<and> sorted (map position (pending_rows n s))
    \<and> (\<forall>e\<in>set s. status e = Pending \<and> e \<notin> set (pending_rows n s) \<longrightarrow>
          (\<forall>e'\<in>set (pending_rows n s). position e' \<le> position e))
    \<and> length (fst (bulkApprove options evs ems (Some n) s)) = length s
    \<and> (\<forall>j<length s.
          (s ! j \<notin> set (pending_rows n s) \<longrightarrow>
             fst (bulkApprove options evs ems (Some n) s) ! j = s ! j)
          \<and> (\<forall>m<length (pending_rows n s). pending_rows n s ! m = s ! j \<longrightarrow>
                fst (bulkApprove options evs ems (Some n) s) ! j
                  = approve_patch options (evs m) (s ! j)))
    \<and> map status (fst (bulkApprove options evs ems (Some n) s))
        = map (\<lambda>e. if e \<in> set (pending_rows n s) then Approved else status e) s
    \<and> snd (bulkApprove options evs ems (Some n) s)
        = map (\<lambda>(m, e). approve_patch options (evs m) e) (enumerate 0 (pending_rows n s))"
proof -
  let ?sel = "pending_rows n s"
  let ?r = "fst (bulkApprove options evs ems (Some n) s)"
  have run: "?r = fst (bulk_count options evs 0 ?sel (s, []))"
    using assms(2,3) by (auto simp: bulkApprove_def bulkApprove_count_def)
  have len: "length ?r = length s"
    using bulk_count_map [of entry_id options evs 0 ?sel s "[]"] run
    by (metis approve_patch_keeps(2) length_map)
  have rows: "(s ! j \<notin> set ?sel \<longrightarrow> ?r ! j = s ! j)
      \<and> (\<forall>m<length ?sel. ?sel ! m = s ! j \<longrightarrow> ?r ! j = approve_patch options (evs m) (s ! j))"
    if j: "j < length s" for j
    using bulk_count_selected [OF assms(1) j, of n options evs] run by simp
  have st: "status (?r ! j) = (if s ! j \<in> set ?sel then Approved else status (s ! j))"
    if j: "j < length s" for j
    using bulk_count_status [OF assms(1) j, of options evs n] run by simp
  have stmap: "map status ?r = map (\<lambda>e. if e \<in> set ?sel then Approved else status e) s"
    using st len by (simp add: list_eq_iff_nth_eq)
  have oldest: "\<forall>e\<in>set s. status e = Pending \<and> e \<notin> set ?sel \<longrightarrow>
      (\<forall>e'\<in>set ?sel. position e' \<le> position e)"
    using pending_rows_oldest by blast
  have resp: "snd (bulkApprove options evs ems (Some n) s)
      = map (\<lambda>(m, e). approve_patch options (evs m) e) (enumerate 0 ?sel)"
    using assms(2,3) by (auto simp: bulkApprove_def bulkApprove_count_def bulk_count_approved)
  from pending_rows_facts(1-3) [of n s] oldest len rows stmap resp show ?thesis
    by blast
qed

theorem bulkApprove_by_count_witness:
  "distinct (map entry_id [ex_entry ''1'' ''a@x.com'' Pending 1, ex_entry ''2'' ''b@x.com'' Pending 2,
       ex_entry ''3'' ''c@x.com'' Pending 3, ex_entry ''4'' ''d@x.com'' Pending 4])
   \<and> map status (fst (bulkApprove opts0 evs0 None (Some 2)
       [ex_entry ''1'' ''a@x.com'' Pending 1, ex_entry ''2'' ''b@x.com'' Pending 2,
        ex_entry ''3'' ''c@x.com'' Pending 3, ex_entry ''4'' ''d@x.com'' Pending 4]))
     = [Approved, Approved, Pending, Pending]"
proof -
  let ?s = "[ex_entry ''1'' ''a@x.com'' Pending 1, ex_entry ''2'' ''b@x.com'' Pending 2,
       ex_entry ''3'' ''c@x.com'' Pending 3, ex_entry ''4'' ''d@x.com'' Pending 4]"
  have d: "distinct (map entry_id ?s)"
    by (simp add: ex_entry_def)
  have sel: "pending_rows 2 ?s
      = [ex_entry ''1'' ''a@x.com'' Pending 1, ex_entry ''2'' ''b@x.com'' Pending 2]"
    by code_simp
  have n: "(2::nat) \<noteq> 0" by simp
  from bulkApprove_by_count [OF d n, of None opts0 evs0] d sel
  show ?thesis by (simp add: ex_entry_def)
qed

section \<open>Status transitions (claim C1)\<close>

lemma transitionsI:
  assumes "length s' = length s"
    and "\<And>i. i < length s \<Longrightarrow> status (s' ! i) = status (s ! i) \<or> R (status (s ! i)) (status (s' ! i))"
  shows "transitions R s s'"
  using assms by (simp add: transitions_def list_all2_conv_all_nth)

lemma transitions_join:
  "transitions (\<lambda>a b. False) s (store_after s (joinWaitlist options ev em r m s))"
  by (simp add: transitions_def joinWaitlist_prefix list.rel_refl)

lemma transitions_approve:
  "transitions (\<lambda>a b. a \<noteq> Registered \<and> b = Approved) s
     (store_after s (approveEntry options ev em s))"
proof (cases "findOne (\<lambda>e. email e = toLowerCase em) s")
  case None
  then show ?thesis
    by (simp add: approveEntry_def transitions_def list.rel_refl)
next
  case (Some entry)
  show ?thesis
  proof (cases "status entry = Registered")
    case True
    with Some show ?thesis
      by (simp add: approveEntry_def transitions_def list.rel_refl)
  next
    case False
    let ?w = "\<lambda>e. email e = toLowerCase em"
    let ?s' = "fst (adapter_update ?w (approve_patch options ev) s)"
    from approveEntry_found(1) [OF Some False, of options ev]
    have run: "store_after s (approveEntry options ev em s) = ?s'" by simp
    have "status (?s' ! i) = status (s ! i)
        \<or> (status (s ! i) \<noteq> Registered \<and> status (?s' ! i) = Approved)"
      if "i < length s" for i
      using adapter_update_nth [OF that, of ?w "approve_patch options ev"] Some False by auto
    then show ?thesis
      unfolding run by (intro transitionsI) (simp_all add: length_adapter_update)
  qed
qed

lemma transitions_reject:
  "transitions (\<lambda>a b. a \<noteq> Registered \<longrightarrow> b = Rejected) s
     (store_after s (rejectEntry ev em s))"
proof (cases "findOne (\<lambda>e. email e = toLowerCase em) s")
  case None
  then show ?thesis
    by (simp add: rejectEntry_def transitions_def list.rel_refl)
next
  case (Some entry)
  let ?w = "\<lambda>e. email e = toLowerCase em"
  let ?s' = "fst (adapter_update ?w (reject_patch ev) s)"
  have run: "store_after s (rejectEntry ev em s) = ?s'"
    using Some by (simp add: rejectEntry_def split: prod.splits)
  have "status (?s' ! i) = status (s ! i) \<or> status (?s' ! i) = Rejected"
    if "i < length s" for i
    using adapter_update_nth [OF that, of ?w "reject_patch ev"] by auto
  then show ?thesis
    unfolding run by (intro transitionsI) (auto simp: length_adapter_update)
qed

lemma transitions_registered:
  "transitions (\<lambda>a b. b = Registered) s (user_create_after opts ev uem s)"
proof -
  have upd: "transitions (\<lambda>a b. b = Registered) s
      (fst (adapter_update w (registered_patch ev) s))" for w
  proof (intro transitionsI)
    show "length (fst (adapter_update w (registered_patch ev) s)) = length s"
      by (rule length_adapter_update)
  next
    fix i assume "i < length s"
    from adapter_update_nth [OF this, of w "registered_patch ev"]
    show "status (fst (adapter_update w (registered_patch ev) s) ! i) = status (s ! i)
        \<or> status (fst (adapter_update w (registered_patch ev) s) ! i) = Registered"
      by auto
  qed
  have same: "transitions (\<lambda>a b. b = Registered) s s"
    by (simp add: transitions_def list.rel_refl)
  show ?thesis
    by (simp add: user_create_after_def upd same Let_def split: option.splits)
qed

lemma bulk_emails_status:
  assumes "i < length s"
  shows "status (fst (bulk_emails options evs k ems (s, acc)) ! i) = status (s ! i)
       \<or> (status (s ! i) = Pending
           \<and> status (fst (bulk_emails options evs k ems (s, acc)) ! i) = Approved)"
  using assms
proof (induction ems arbitrary: k s acc)
  case Nil
  then show ?case by simp
next
  case (Cons em ems)
  let ?w = "\<lambda>e. email e = toLowerCase em"
  show ?case
  proof (cases "findOne ?w s")
    case None
    with Cons.IH [OF Cons.prems] show ?thesis by simp
  next
    case (Some entry)
    show ?thesis
    proof (cases "status entry = Pending")
      case False
      with Some Cons.IH [OF Cons.prems] show ?thesis by simp
    next
      case True
      let ?s1 = "fst (adapter_update ?w (approve_patch options (evs k)) s)"
      let ?acc1 = "acc @ [approve_patch options (evs k) entry]"
      have step: "bulk_emails options evs k (em # ems) (s, acc)
          = bulk_emails options evs (Suc k) ems (?s1, ?acc1)"
        using Some True by simp
      have one: "status (?s1 ! i) = status (s ! i)
          \<or> (status (s ! i) = Pending \<and> status (?s1 ! i) = Approved)"
        using adapter_update_nth [OF Cons.prems, of ?w "approve_patch options (evs k)"]
          Some True by auto
      have "i < length ?s1"
        using Cons.prems by (simp add: length_adapter_update)
      from Cons.IH [OF this, of "Suc k" ?acc1] one show ?thesis
        unfolding step by auto
    qed
  qed
qed

lemma transitions_bulkApprove:
  assumes "distinct (map entry_id s)"
  shows "transitions (\<lambda>a b. a = Pending \<and> b = Approved) s
           (fst (bulkApprove options evs ems cnt s))"
proof (intro transitionsI)
  show "length (fst (bulkApprove options evs ems cnt s)) = length s"
    using bulkApprove_map [of entry_id options evs ems cnt s]
    by (metis approve_patch_keeps(2) length_map)
next
  fix i assume i: "i < length s"
  have same: "bulkApprove options evs ems cnt s = (s, []) \<Longrightarrow>
      status (fst (bulkApprove options evs ems cnt s) ! i) = status (s ! i)"
    by simp
  have cnt_branch: "status (fst (bulkApprove_count options evs cnt s) ! i) = status (s ! i)
      \<or> (status (s ! i) = Pending
          \<and> status (fst (bulkApprove_count options evs cnt s) ! i) = Approved)"
  proof (cases cnt)
    case None
    then show ?thesis by (simp add: bulkApprove_count_def)
  next
    case (Some n)
    show ?thesis
    proof (cases "n = 0")
      case True
      with Some show ?thesis by (simp add: bulkApprove_count_def)
    next
      case False
      have "s ! i \<in> set (pending_rows n s) \<Longrightarrow> status (s ! i) = Pending"
        using pending_rows_facts(1) [of n s] by blast
      with bulk_count_status [OF assms i, of options evs n] Some False show ?thesis
        by (auto simp: bulkApprove_count_def)
    qed
  qed
  show "status (fst (bulkApprove options evs ems cnt s) ! i) = status (s ! i)
      \<or> (status (s ! i) = Pending
          \<and> status (fst (bulkApprove options evs ems cnt s) ! i) = Approved)"
  proof (cases ems)
    case None
    with cnt_branch show ?thesis by (simp add: bulkApprove_def)
  next
    case (Some es)
    show ?thesis
    proof (cases "es = []")
      case True
      with Some cnt_branch show ?thesis by (simp add: bulkApprove_def)
    next
      case False
      with Some bulk_emails_status [OF i, of options evs 0 es "[]"] show ?thesis
        by (simp add: bulkApprove_def)
    qed
  qed
qed

text \<open>
  Claim C1, as the code has it. On a store whose row identifiers are distinct: join
  changes the status of no existing entry; approve moves an entry only from pending,
  approved or rejected to approved; bulk approve moves an entry only from pending to
  approved; the registration step moves an entry only to registered; reject moves an
  entry that is pending, approved or rejected only to rejected. So approve, bulk approve,
  join and the registration step never take an entry out of registered.
\<close>

theorem core_transitions:
  assumes "distinct (map entry_id s)"
  shows "transitions (\<lambda>a b. False) s (store_after s (joinWaitlist options ev em r m s))
    \<and> transitions (\<lambda>a b. a \<noteq> Registered \<and> b = Approved) s
        (store_after s (approveEntry options ev em s))
    \<and> transitions (\<lambda>a b. a = Pending \<and> b = Approved) s
        (fst (bulkApprove options evs ems cnt s))
    \<and> transitions (\<lambda>a b. b = Registered) s (user_create_after options ev uem s)
    \<and> transitions (\<lambda>a b. a \<noteq> Registered \<longrightarrow> b = Rejected) s
        (store_after s (rejectEntry ev em s))"
  by (intro conjI transitions_join transitions_approve transitions_bulkApprove [OF assms]
        transitions_registered transitions_reject)

theorem core_transitions_witness:
  "distinct (map entry_id ex_store)
   \<and> map status (store_after ex_store (approveEntry opts0 (env0 ''9'') ''d@x.com'' ex_store))
       = [Pending, Approved, Rejected, Registered]
   \<and> map status (store_after ex_store (approveEntry opts0 (env0 ''9'') ''c@x.com'' ex_store))
       = [Pending, Approved, Approved, Registered]
   \<and> map status (fst (bulkApprove opts0 evs0 None (Some 4) ex_store))
       = [Approved, Approved, Rejected, Registered]
   \<and> map status (user_create_after opts0 (env0 ''9'') (Some ''b@x.com'') ex_store)
       = [Pending, Registered, Rejected, Registered]
   \<and> map status (store_after ex_store (rejectEntry (env0 ''9'') ''a@x.com'' ex_store))
       = [Rejected, Approved, Rejected, Registered]
   \<and> transitions (\<lambda>a b. a \<noteq> Registered \<and> b = Approved) ex_store
        (store_after ex_store (approveEntry opts0 (env0 ''9'') ''c@x.com'' ex_store))"
proof -
  have d: "distinct (map entry_id ex_store)"
    by (simp add: ex_store_def ex_entry_def)
  have a1: "map status (store_after ex_store (approveEntry opts0 (env0 ''9'') ''d@x.com'' ex_store))
       = [Pending, Approved, Rejected, Registered]"
    by code_simp
  have a2: "map status (store_after ex_store (approveEntry opts0 (env0 ''9'') ''c@x.com'' ex_store))
       = [Pending, Approved, Approved, Registered]"
    by code_simp
  have b: "map status (fst (bulkApprove opts0 evs0 None (Some 4) ex_store))
       = [Approved, Approved, Rejected, Registered]"
    by code_simp
  have c: "map status (user_create_after opts0 (env0 ''9'') (Some ''b@x.com'') ex_store)
       = [Pending, Registered, Rejected, Registered]"
    by code_simp
  have r: "map status (store_after ex_store (rejectEntry (env0 ''9'') ''a@x.com'' ex_store))
       = [Rejected, Approved, Rejected, Registered]"
    by code_simp
  from core_transitions [OF d, of opts0 "env0 ''9''" "''c@x.com''"] d a1 a2 b c r
  show ?thesis by simp
qed

text \<open>
  Claim C1 as stated fails: reject takes an approved entry to rejected, and approve takes
  a rejected entry to approved.
\<close>

theorem core_transitions_counterexample:
  "map status (store_after [ex_entry ''1'' ''a@x.com'' Approved 1]
       (rejectEntry (env0 ''9'') ''a@x.com'' [ex_entry ''1'' ''a@x.com'' Approved 1]))
     = [Rejected]
   \<and> map status (store_after [ex_entry ''1'' ''a@x.com'' Rejected 1]
       (approveEntry opts0 (env0 ''9'') ''a@x.com'' [ex_entry ''1'' ''a@x.com'' Rejected 1]))
     = [Approved]"
  by code_simp

end
